theory Spec2Isabelle
  imports Main "HOL-Library.Char_ord" "HOL-Library.List_Lexorder" "HOL-Library.Sublist"
begin

section \<open>Errors\<close>

text \<open>
  The failures the protocol core can raise. Every JavaScript \<open>throw\<close> of the modelled code
  is a value \<open>Inl e\<close> of a sum type.
\<close>

datatype error = FormatError | OverflowError

section \<open>Compact Codec (Base64x64)\<close>

text \<open>
  Modelled from the spec: \<open>Base64x64.js\<close> is required by \<open>Clock.js\<close> but is not among the
  sources. The alphabet is the one the header comment of \<open>Clock.js\<close> gives,
  \<open>01...89AB...YZ_ab...yz~\<close>: digits, uppercase, underscore, lowercase, tilde.
\<close>

definition alphabet :: string where
  "alphabet = ''0123456789ABCDEFGHIJKLMNOPQRSTUVWXYZ_abcdefghijklmnopqrstuvwxyz~''"

text \<open>Position of a character in a string, \<open>None\<close> when it does not occur.\<close>

fun index_of :: "char \<Rightarrow> string \<Rightarrow> nat option" where
  "index_of c [] = None"
| "index_of c (x # xs) = (if c = x then Some 0 else map_option Suc (index_of c xs))"

text \<open>
  Modelled from the spec: the numeric value of a symbol is its position in the alphabet
  (a character outside the alphabet is given 0 here; \<open>decode\<close> and \<open>increment\<close> reject
  such strings before any value is read).
\<close>

definition base2int :: "char \<Rightarrow> nat" where
  "base2int c = (case index_of c alphabet of Some i \<Rightarrow> i | None \<Rightarrow> 0)"

text \<open>Modelled from the spec: the symbol of a 6-bit value.\<close>

definition int2base :: "nat \<Rightarrow> char" where
  "int2base i = alphabet ! (i mod 64)"

text \<open>Modelled from the spec: a string all of whose characters are in the alphabet.\<close>

definition is_base64 :: "string \<Rightarrow> bool" where
  "is_base64 s = list_all (\<lambda>c. c \<in> set alphabet) s"

text \<open>
  Modelled from the spec: a Compact Value is a string of 0 to 11 symbols of the alphabet.
\<close>

definition valid_compact :: "string \<Rightarrow> bool" where
  "valid_compact s = (length s \<le> 11 \<and> is_base64 s)"

text \<open>The base-64 numeral a string denotes at its own length, most significant symbol first.\<close>

fun b64_num :: "string \<Rightarrow> nat" where
  "b64_num [] = 0"
| "b64_num (c # cs) = base2int c * 64 ^ length cs + b64_num cs"

text \<open>
  Modelled from the spec: missing trailing symbols are zero digits, so a string is padded
  on the right with the zero symbol.
\<close>

definition rpad :: "nat \<Rightarrow> string \<Rightarrow> string" where
  "rpad n s = s @ replicate (n - length s) (CHR ''0'')"

text \<open>
  Modelled from the spec: \<open>decode\<close> fails with \<open>FormatError\<close> on a character outside the
  alphabet and reads a string shorter than the full 11 symbols as padded on the right.
\<close>

definition decode :: "string \<Rightarrow> error + nat" where
  "decode s = (if is_base64 s then Inr (b64_num (rpad 11 s)) else Inl FormatError)"

text \<open>
  Modelled from the spec: a Compact Value is, logically, an unsigned integer in
  \<open>[0, 2^64)\<close>, written as a string of 0 to 11 symbols of the alphabet.
\<close>

definition compact_value :: "string \<Rightarrow> bool" where
  "compact_value s = (valid_compact s \<and> b64_num (rpad 11 s) < 2 ^ 64)"

text \<open>
  Modelled from the spec: the value of a Timestamp is a Compact Value, and it is not empty
  (\<open>parse\<close> fails on an empty value part).
\<close>

definition timestamp_value :: "string \<Rightarrow> bool" where
  "timestamp_value s = (s \<noteq> [] \<and> compact_value s)"

text \<open>
  Modelled from the spec: \<open>compare\<close> is the direct lexicographic comparison of the two
  strings padded on the right to equal length (the intended fast path). The order on
  strings is JavaScript's: code unit by code unit, a proper prefix first.
\<close>

definition compare :: "string \<Rightarrow> string \<Rightarrow> int" where
  "compare a b =
     (let n = max (length a) (length b); x = rpad n a; y = rpad n b
      in if x < y then - 1 else if y < x then 1 else 0)"

text \<open>The numeral of \<open>n\<close> written with exactly \<open>k\<close> symbols.\<close>

fun b64_str :: "nat \<Rightarrow> nat \<Rightarrow> string" where
  "b64_str 0 n = []"
| "b64_str (Suc k) n = b64_str k (n div 64) @ [int2base (n mod 64)]"

text \<open>
  Modelled from the spec: \<open>increment\<close> returns the encoding of the value plus one at the
  same symbol length (one unit of the last symbol, with carry), fails with
  \<open>OverflowError\<close> when the capacity of that length is exceeded, and, reading the string
  through the codec, fails with \<open>FormatError\<close> on a character outside the alphabet.
\<close>

definition increment :: "string \<Rightarrow> error + string" where
  "increment s =
     (if \<not> is_base64 s then Inl FormatError
      else if 64 ^ length s \<le> b64_num s + 1 then Inl OverflowError
      else Inr (b64_str (length s) (b64_num s + 1)))"

text \<open>
  Modelled from the spec: \<open>relax\<close> truncates a value against a baseline down to
  \<open>minLength\<close> symbols: the result is the shortest prefix of at least \<open>minLength\<close>
  symbols that is still greater than the baseline, and the value itself when no such
  prefix exists.
\<close>

definition relax :: "string \<Rightarrow> string \<Rightarrow> int \<Rightarrow> string" where
  "relax v baseline minLen =
     (case find (\<lambda>k. compare (take k v) baseline = 1) [nat minLen ..< Suc (length v)] of
        Some k \<Rightarrow> take k v
      | None \<Rightarrow> v)"

section \<open>Timestamp (Stamp)\<close>

text \<open>
  Modelled from the spec: \<open>Stamp.js\<close> is required by \<open>Clock.js\<close> but is not among the
  sources. A Timestamp is a pair of a value and an origin, both Compact Values.
\<close>

record stamp =
  st_value :: string
  st_origin :: string

text \<open>
  \<open>Clock.js\<close> accepts a Timestamp either as an object or in its wire-text form.
\<close>

datatype stamp_arg = Wire string | Obj stamp

text \<open>
  Modelled from the spec: the wire form is \<open><value>-<origin>\<close>; a missing origin part
  means origin \<open>0\<close>; parsing fails with \<open>FormatError\<close> when the value part is empty or
  a part has a symbol outside the alphabet.
\<close>

definition Stamp_parse :: "string \<Rightarrow> error + stamp" where
  "Stamp_parse text =
     (let v = takeWhile (\<lambda>c. c \<noteq> CHR ''-'') text;
          rest = dropWhile (\<lambda>c. c \<noteq> CHR ''-'') text;
          org = (if rest = [] then ''0'' else tl rest)
      in if v = [] \<or> \<not> is_base64 v \<or> \<not> is_base64 org then Inl FormatError
         else Inr \<lparr>st_value = v, st_origin = org\<rparr>)"

text \<open>
  Modelled from the spec: \<open>Stamp.as\<close> takes a Timestamp or its wire form and gives the
  Timestamp.
\<close>

fun Stamp_as :: "stamp_arg \<Rightarrow> error + stamp" where
  "Stamp_as (Obj s) = Inr s"
| "Stamp_as (Wire text) = Stamp_parse text"

text \<open>
  Modelled from the spec: the order of Timestamps is by value, and by origin only when
  the values are equal.
\<close>

definition Stamp_gt :: "stamp \<Rightarrow> stamp \<Rightarrow> bool" where
  "Stamp_gt a b =
     (compare (st_value a) (st_value b) = 1 \<or>
      (compare (st_value a) (st_value b) = 0 \<and> compare (st_origin a) (st_origin b) = 1))"

text \<open>
  Modelled from the spec: \<open>next(origin)\<close> is the Timestamp whose value is the increment of
  this value, with the given origin. A failure of \<open>increment\<close> is a failure of \<open>next\<close>.
\<close>

definition Stamp_next :: "stamp \<Rightarrow> string \<Rightarrow> error + stamp" where
  "Stamp_next s origin =
     (case increment (st_value s) of
        Inl e \<Rightarrow> Inl e
      | Inr v \<Rightarrow> Inr \<lparr>st_value = v, st_origin = origin\<rparr>)"

text \<open>
  Modelled from the spec: \<open>Stamp.now(origin, offset)\<close> reads the wall clock plus the
  offset through the calendar encoding and gives a candidate with the given origin. The
  wall clock is the environment of the call: \<open>wall\<close> maps the offset to the calendar
  value read at that call.
\<close>

definition Stamp_now :: "(int \<Rightarrow> string) \<Rightarrow> string \<Rightarrow> int \<Rightarrow> stamp" where
  "Stamp_now wall origin off = \<lparr>st_value = wall off, st_origin = origin\<rparr>"

text \<open>A wall clock that reads the calendar value \<open>v\<close>.\<close>

definition reads :: "string \<Rightarrow> int \<Rightarrow> string" where
  "reads v off = v"

text \<open>The longer of the two fields of a Timestamp.\<close>

definition stamp_width :: "stamp \<Rightarrow> nat" where
  "stamp_width s = max (length (st_value s)) (length (st_origin s))"

section \<open>Hybrid Clock (Clock.js)\<close>

text \<open>The fields \<open>_last\<close>, \<open>_origin\<close>, \<open>_offset\<close> and \<open>_minlen\<close> of a \<open>Clock\<close>.\<close>

record clock =
  clk_last :: stamp
  clk_origin :: string
  clk_offset :: int
  clk_minlen :: int

text \<open>
  The \<open>options\<close> object of the constructor. A property that is absent is \<open>None\<close>
  (\<open>learnOffset\<close> is read only for its truth value). Numbers are integers here.
\<close>

record options =
  minLength :: "int option"
  learnOffset :: bool
  offset :: "int option"

text \<open>JavaScript's \<open>x|0\<close> on an integer: the signed 32-bit integer congruent to it.\<close>

definition to_int32 :: "int \<Rightarrow> int" where
  "to_int32 x = (x + 2 ^ 31) mod 2 ^ 32 - 2 ^ 31"

text \<open>
  The constructor. \<open>ms\<close> is the millisecond getter of a value (\<open>now.Value.ms\<close>, in the
  absent \<open>Base64x64.js\<close>) and \<open>my_now_ms\<close> is what \<open>Base64x64.now().ms\<close> reads at
  construction. The guards \<open>if (options.minLength)\<close> and \<open>if (options.offset)\<close> are
  JavaScript truth tests: an absent property and the number 0 both fail them.
\<close>

definition Clock_new ::
  "(string \<Rightarrow> int) \<Rightarrow> int \<Rightarrow> stamp_arg \<Rightarrow> options option \<Rightarrow> error + clock" where
  "Clock_new ms my_now_ms now opts =
     (case (case now of Wire text \<Rightarrow> Stamp_parse text | Obj s \<Rightarrow> Inr s) of
        Inl e \<Rightarrow> Inl e
      | Inr st \<Rightarrow>
          let c0 = \<lparr>clk_last = st, clk_origin = st_origin st, clk_offset = 0, clk_minlen = 6\<rparr>
          in case opts of
               None \<Rightarrow> Inr c0
             | Some os \<Rightarrow>
                 let c1 = (case minLength os of
                             Some n \<Rightarrow> if n \<noteq> 0 then c0\<lparr>clk_minlen := n\<rparr> else c0
                           | None \<Rightarrow> c0);
                     c2 = (if learnOffset os
                           then c1\<lparr>clk_offset := ms (st_value st) - my_now_ms\<rparr>
                           else case offset os of
                                  Some k \<Rightarrow> if k \<noteq> 0 then c1\<lparr>clk_offset := to_int32 k\<rparr> else c1
                                | None \<Rightarrow> c1)
                 in Inr c2)"

text \<open>
  \<open>issueTimestamp\<close> returns the Timestamp or the error thrown, and the clock after the
  call; a throw happens before \<open>this._last = next\<close>, so it leaves the clock as it was.
\<close>

definition issueTimestamp :: "(int \<Rightarrow> string) \<Rightarrow> clock \<Rightarrow> (error + stamp) \<times> clock" where
  "issueTimestamp wall c =
     (let next = Stamp_now wall (clk_origin c) (clk_offset c);
          last = clk_last c
      in if \<not> Stamp_gt next last then
           (case Stamp_next last (clk_origin c) of
              Inl e \<Rightarrow> (Inl e, c)
            | Inr n \<Rightarrow> (Inr n, c\<lparr>clk_last := n\<rparr>))
         else if clk_minlen c < 8 then
           (let n = \<lparr>st_value = relax (st_value next) (st_value last) (clk_minlen c),
                      st_origin = clk_origin c\<rparr>
            in (Inr n, c\<lparr>clk_last := n\<rparr>))
         else (Inr next, c\<lparr>clk_last := next\<rparr>))"

text \<open>\<open>seeTimestamp\<close> returns nothing; it throws when \<open>Stamp.as\<close> does.\<close>

definition seeTimestamp :: "stamp_arg \<Rightarrow> clock \<Rightarrow> (error + unit) \<times> clock" where
  "seeTimestamp arg c =
     (case Stamp_as arg of
        Inl e \<Rightarrow> (Inl e, c)
      | Inr s \<Rightarrow> (Inr (), if Stamp_gt s (clk_last c) then c\<lparr>clk_last := s\<rparr> else c))"

subsection \<open>Sequences of calls on one clock\<close>

text \<open>
  A call is an \<open>issueTimestamp\<close> with the wall clock of that moment, or a \<open>seeTimestamp\<close>
  with its argument. The log records what each call returned or was given.
\<close>

datatype call = Issue "int \<Rightarrow> string" | See stamp_arg

datatype outcome = Issued stamp | Seen stamp | Failed error

fun step :: "clock \<Rightarrow> call \<Rightarrow> outcome \<times> clock" where
  "step c (Issue wall) =
     (case issueTimestamp wall c of
        (Inl e, c') \<Rightarrow> (Failed e, c')
      | (Inr s, c') \<Rightarrow> (Issued s, c'))"
| "step c (See arg) =
     (case Stamp_as arg of
        Inl e \<Rightarrow> (Failed e, snd (seeTimestamp arg c))
      | Inr s \<Rightarrow> (Seen s, snd (seeTimestamp arg c)))"

fun run :: "clock \<Rightarrow> call list \<Rightarrow> outcome list \<times> clock" where
  "run c [] = ([], c)"
| "run c (x # xs) =
     (let (out, c') = step c x; (log, d) = run c' xs in (out # log, d))"

section \<open>Version Vector\<close>

text \<open>
  Modelled from the spec: \<open>VV.js\<close> is not among the sources. A Version Vector maps an
  origin to the highest value seen from that origin, with at most one entry for each
  origin; a value is the unsigned integer the Compact Value denotes.
\<close>

type_synonym vv = "string \<rightharpoonup> nat"

text \<open>Modelled from the spec: \<open>merge\<close> takes the maximum for each origin.\<close>

definition merge :: "vv \<Rightarrow> vv \<Rightarrow> vv" where
  "merge A B =
     (\<lambda>org. case (A org, B org) of
               (None, y) \<Rightarrow> y
             | (Some x, None) \<Rightarrow> Some x
             | (Some x, Some y) \<Rightarrow> Some (max x y))"

section \<open>The alphabet and the order of strings\<close>

lemma alphabet_sorted: "sorted_wrt (<) alphabet"
  unfolding alphabet_def by simp

lemma length_alphabet: "length alphabet = 64"
  unfolding alphabet_def by simp

lemma alphabet_distinct: "distinct alphabet"
  using alphabet_sorted strict_sorted_iff by blast

lemma index_of_Some: "index_of c xs = Some i \<Longrightarrow> i < length xs \<and> xs ! i = c"
  by (induction xs arbitrary: i) (auto split: if_splits)

lemma index_of_mem: "c \<in> set xs \<Longrightarrow> \<exists>i. index_of c xs = Some i"
  by (induction xs) auto

lemma index_of_nth: "distinct xs \<Longrightarrow> i < length xs \<Longrightarrow> index_of (xs ! i) xs = Some i"
proof (induction xs arbitrary: i)
  case Nil
  then show ?case by simp
next
  case (Cons x xs)
  then show ?case by (cases i) auto
qed

lemma base2int_less: "base2int c < 64"
  unfolding base2int_def
  by (auto split: option.splits dest!: index_of_Some simp: length_alphabet)

lemma base2int_mono:
  assumes "c \<in> set alphabet" "d \<in> set alphabet"
  shows "(c < d) = (base2int c < base2int d)"
proof -
  obtain i j where i: "index_of c alphabet = Some i" and j: "index_of d alphabet = Some j"
    using assms index_of_mem by blast
  have ci: "i < length alphabet" "alphabet ! i = c"
    and dj: "j < length alphabet" "alphabet ! j = d"
    using index_of_Some[OF i] index_of_Some[OF j] by auto
  have "i < j \<Longrightarrow> c < d"
    using alphabet_sorted ci dj by (auto simp: sorted_wrt_iff_nth_less)
  moreover have "j < i \<Longrightarrow> d < c"
    using alphabet_sorted ci dj by (auto simp: sorted_wrt_iff_nth_less)
  moreover have "i = j \<Longrightarrow> c = d"
    using ci dj by simp
  ultimately show ?thesis
    unfolding base2int_def i j by (metis less_asym' linorder_less_linear option.simps(5))
qed

lemma base2int_inj:
  assumes "c \<in> set alphabet" "d \<in> set alphabet"
  shows "(c = d) = (base2int c = base2int d)"
  using base2int_mono[OF assms] base2int_mono[OF assms(2) assms(1)]
  by (metis less_irrefl linorder_neqE)

lemma b64_num_less: "b64_num s < 64 ^ length s"
proof (induction s)
  case Nil
  then show ?case by simp
next
  case (Cons c cs)
  have "base2int c * 64 ^ length cs + b64_num cs
          < base2int c * 64 ^ length cs + 64 ^ length cs"
    using Cons by simp
  also have "\<dots> = (base2int c + 1) * 64 ^ length cs"
    by simp
  also have "\<dots> \<le> 64 * 64 ^ length cs"
    using base2int_less[of c] by (intro mult_right_mono) auto
  finally show ?case by simp
qed

text \<open>
  On strings of equal length over the alphabet, the order of strings is the order of the
  numerals they denote.
\<close>

lemma lex_num:
  "length x = length y \<Longrightarrow> is_base64 x \<Longrightarrow> is_base64 y \<Longrightarrow>
     (x < y) = (b64_num x < b64_num y)"
proof (induction x y rule: list_induct2)
  case Nil
  then show ?case by simp
next
  case (Cons c cs d ds)
  have cd: "c \<in> set alphabet" "d \<in> set alphabet" and r: "is_base64 cs" "is_base64 ds"
    using Cons.prems by (auto simp: is_base64_def)
  have IH: "(cs < ds) = (b64_num cs < b64_num ds)"
    using Cons.IH r by simp
  have lc: "b64_num cs < 64 ^ length cs" and ld: "b64_num ds < 64 ^ length cs"
    using b64_num_less[of cs] b64_num_less[of ds] Cons.hyps by auto
  let ?p = "(64::nat) ^ length cs"
  show ?case
  proof (cases "base2int c < base2int d")
    case True
    then have "c < d"
      using base2int_mono[OF cd] by simp
    moreover have "base2int c * ?p + b64_num cs < base2int d * ?p + b64_num ds"
    proof -
      have "base2int c * ?p + b64_num cs < (base2int c + 1) * ?p"
        using lc by simp
      also have "\<dots> \<le> base2int d * ?p"
        using True by (intro mult_right_mono) auto
      finally show ?thesis by simp
    qed
    ultimately show ?thesis
      using Cons.hyps by simp
  next
    case False
    show ?thesis
    proof (cases "base2int c = base2int d")
      case True
      then have "c = d"
        using base2int_inj[OF cd] by simp
      then show ?thesis
        using IH Cons.hyps by simp
    next
      case ne: False
      then have gt: "base2int d < base2int c"
        using False by simp
      then have "d < c"
        using base2int_mono[OF cd(2) cd(1)] by simp
      moreover have "base2int d * ?p + b64_num ds < base2int c * ?p + b64_num cs"
      proof -
        have "base2int d * ?p + b64_num ds < (base2int d + 1) * ?p"
          using ld by simp
        also have "\<dots> \<le> base2int c * ?p"
          using gt by (intro mult_right_mono) auto
        finally show ?thesis by simp
      qed
      ultimately show ?thesis
        using Cons.hyps by (auto simp: not_less_iff_gr_or_eq)
    qed
  qed
qed

lemma b64_num_inj:
  "length x = length y \<Longrightarrow> is_base64 x \<Longrightarrow> is_base64 y \<Longrightarrow>
     (x = y) = (b64_num x = b64_num y)"
  using lex_num[of x y] lex_num[of y x]
  by (metis less_irrefl linorder_neqE)

subsection \<open>Padding and comparison\<close>

lemma append_same_less:
  fixes x y :: "'a::linorder list"
  shows "length x = length y \<Longrightarrow> (x @ z < y @ z) = (x < y)"
  by (induction x y rule: list_induct2) auto

lemma rpad_length: "length s \<le> n \<Longrightarrow> length (rpad n s) = n"
  by (simp add: rpad_def)

lemma rpad_rpad:
  "length s \<le> n \<Longrightarrow> n \<le> m \<Longrightarrow> rpad m s = rpad n s @ replicate (m - n) (CHR ''0'')"
  by (simp add: rpad_def replicate_add[symmetric])

lemma rpad_less_mono:
  assumes "length a \<le> n" "length b \<le> n" "n \<le> m"
  shows "(rpad m a < rpad m b) = (rpad n a < rpad n b)"
  using assms
  by (simp add: rpad_rpad[of a n m] rpad_rpad[of b n m] append_same_less rpad_length)

lemma zero_in_alphabet: "CHR ''0'' \<in> set alphabet"
  by (simp add: alphabet_def)

lemma is_base64_rpad: "is_base64 s \<Longrightarrow> is_base64 (rpad n s)"
  by (auto simp: is_base64_def rpad_def list_all_iff zero_in_alphabet)

lemma compare_less_iff:
  assumes "length a \<le> n" "length b \<le> n"
  shows "(compare a b = - 1) = (rpad n a < rpad n b)"
proof -
  let ?k = "max (length a) (length b)"
  have "(rpad n a < rpad n b) = (rpad ?k a < rpad ?k b)"
    using assms by (intro rpad_less_mono) auto
  then show ?thesis
    by (auto simp: compare_def Let_def)
qed

lemma compare_greater_iff:
  assumes "length a \<le> n" "length b \<le> n"
  shows "(compare a b = 1) = (rpad n b < rpad n a)"
proof -
  let ?k = "max (length a) (length b)"
  have "(rpad n b < rpad n a) = (rpad ?k b < rpad ?k a)"
    using assms by (intro rpad_less_mono) auto
  then show ?thesis
    by (auto simp: compare_def Let_def)
qed

lemma compare_range: "compare a b = - 1 \<or> compare a b = 0 \<or> compare a b = 1"
  by (simp add: compare_def Let_def)

lemma compare_eq_iff:
  assumes "length a \<le> n" "length b \<le> n"
  shows "(compare a b = 0) = (rpad n a = rpad n b)"
  using compare_less_iff[OF assms] compare_greater_iff[OF assms] compare_range[of a b]
  by (metis less_irrefl linorder_neqE one_neq_neg_one zero_neq_neg_one zero_neq_one)

text \<open>
  C7. For all valid Compact Codec strings \<open>a\<close> and \<open>b\<close>, both decode, the lexicographic
  order of \<open>a\<close> and \<open>b\<close> padded on the right to equal length is the numeric order of
  \<open>decode a\<close> and \<open>decode b\<close>, and \<open>compare a b\<close> is the three-way comparison of the
  decoded integers.
\<close>

theorem compare_matches_decode:
  assumes "valid_compact a" and "valid_compact b"
  shows "\<exists>m n. decode a = Inr m \<and> decode b = Inr n \<and>
           compare a b = (if m < n then - 1 else if n < m then 1 else 0) \<and>
           (let k = max (length a) (length b) in
              (rpad k a < rpad k b) = (m < n) \<and> (rpad k a = rpad k b) = (m = n))"
proof -
  have la: "length a \<le> 11" and lb: "length b \<le> 11"
    and va: "is_base64 a" and vb: "is_base64 b"
    using assms by (auto simp: valid_compact_def)
  let ?k = "max (length a) (length b)"
  let ?x = "rpad 11 a" and ?y = "rpad 11 b"
  have len: "length ?x = length ?y"
    using la lb by (simp add: rpad_length)
  have vx: "is_base64 ?x" and vy: "is_base64 ?y"
    using va vb by (simp_all add: is_base64_rpad)
  have lt: "(?x < ?y) = (b64_num ?x < b64_num ?y)"
    using lex_num[OF len vx vy] .
  have gt: "(?y < ?x) = (b64_num ?y < b64_num ?x)"
    using lex_num[OF len[symmetric] vy vx] .
  have eq: "(?x = ?y) = (b64_num ?x = b64_num ?y)"
    using b64_num_inj[OF len vx vy] .
  have c1: "(compare a b = - 1) = (?x < ?y)"
    using compare_less_iff[OF la lb] .
  have c2: "(compare a b = 1) = (?y < ?x)"
    using compare_greater_iff[OF la lb] .
  have c0: "(compare a b = 0) = (?x = ?y)"
    using compare_eq_iff[OF la lb] .
  have k1: "(rpad ?k a < rpad ?k b) = (?x < ?y)"
    using rpad_less_mono[of a ?k b 11] la lb by simp
  have k0: "(rpad ?k a = rpad ?k b) = (?x = ?y)"
    using compare_eq_iff[of a ?k b] c0 by simp
  have cmp: "compare a b =
      (if b64_num ?x < b64_num ?y then - 1 else if b64_num ?y < b64_num ?x then 1 else 0)"
    using c1 c2 c0 lt gt eq compare_range[of a b] by (metis less_irrefl linorder_neqE)
  show ?thesis
    using cmp k1 k0 lt eq va vb by (simp add: decode_def Let_def)
qed

theorem compare_matches_decode_witness:
  "valid_compact ''1CQKn'' \<and> valid_compact ''1CQKmz~'' \<and>
   (\<exists>m n. decode ''1CQKn'' = Inr m \<and> decode ''1CQKmz~'' = Inr n \<and>
      compare ''1CQKn'' ''1CQKmz~'' = (if m < n then - 1 else if n < m then 1 else 0) \<and>
      (let k = max (length ''1CQKn'') (length ''1CQKmz~'') in
         (rpad k ''1CQKn'' < rpad k ''1CQKmz~'') = (m < n) \<and>
         (rpad k ''1CQKn'' = rpad k ''1CQKmz~'') = (m = n)))"
  using compare_matches_decode[of "''1CQKn''" "''1CQKmz~''"]
  by (simp add: valid_compact_def is_base64_def alphabet_def)

section \<open>Increment, relax and the order of Timestamps\<close>

subsection \<open>Increment\<close>

lemma int2base_mem: "int2base i \<in> set alphabet"
  by (simp add: int2base_def length_alphabet)

lemma base2int_int2base: "base2int (int2base i) = i mod 64"
  by (simp add: base2int_def int2base_def index_of_nth alphabet_distinct length_alphabet)

lemma length_b64_str: "length (b64_str k n) = k"
  by (induction k arbitrary: n) auto

lemma is_base64_b64_str: "is_base64 (b64_str k n)"
  by (induction k arbitrary: n) (auto simp: is_base64_def int2base_mem)

lemma b64_num_snoc: "b64_num (xs @ [c]) = b64_num xs * 64 + base2int c"
  by (induction xs) (auto simp: algebra_simps)

lemma b64_num_b64_str: "b64_num (b64_str k n) = n mod 64 ^ k"
proof (induction k arbitrary: n)
  case 0
  then show ?case by simp
next
  case (Suc k)
  have "b64_num (b64_str (Suc k) n) = (n div 64) mod 64 ^ k * 64 + n mod 64"
    by (simp add: b64_num_snoc Suc base2int_int2base)
  also have "\<dots> = n mod 64 ^ Suc k"
    by (simp add: mod_mult2_eq mult.commute)
  finally show ?case .
qed

lemma increment_Inr:
  assumes "increment s = Inr t"
  shows "length t = length s" "is_base64 t" "b64_num t = b64_num s + 1" "is_base64 s"
proof -
  have v: "is_base64 s" and b: "b64_num s + 1 < 64 ^ length s"
    and t: "t = b64_str (length s) (b64_num s + 1)"
    using assms by (auto simp: increment_def split: if_splits)
  show "length t = length s"
    by (simp add: t length_b64_str)
  show "is_base64 t"
    by (simp add: t is_base64_b64_str)
  show "b64_num t = b64_num s + 1"
    using b by (simp add: t b64_num_b64_str)
  show "is_base64 s"
    by (rule v)
qed

lemma increment_greater:
  assumes "increment s = Inr t"
  shows "compare t s = 1"
proof -
  note f = increment_Inr[OF assms]
  have "s < t"
    using lex_num[of s t] f by simp
  then show ?thesis
    using f(1) by (simp add: compare_def Let_def rpad_def)
qed

lemma increment_neq: "increment s = Inr t \<Longrightarrow> t \<noteq> s"
  using increment_Inr(3)[of s t] by auto

lemma tilde_val: "base2int (CHR ''~'') = 63"
  by (simp add: base2int_def alphabet_def)

lemma tilde_mem: "CHR ''~'' \<in> set alphabet"
  by (simp add: alphabet_def)

lemma b64_num_tildes: "b64_num (replicate n (CHR ''~'')) + 1 = 64 ^ n"
  by (induction n) (auto simp: tilde_val)

lemma is_base64_tildes: "is_base64 (replicate n (CHR ''~''))"
  by (simp add: is_base64_def list_all_iff tilde_mem)

lemma increment_returns_iff:
  "(\<exists>t. increment s = Inr t) = (is_base64 s \<and> s \<noteq> replicate (length s) (CHR ''~''))"
proof (cases "is_base64 s")
  case False
  then show ?thesis by (simp add: increment_def)
next
  case True
  let ?m = "replicate (length s) (CHR ''~'')"
  have "(s = ?m) = (b64_num s = b64_num ?m)"
    using b64_num_inj[of s ?m] True is_base64_tildes by simp
  also have "\<dots> = (b64_num s + 1 = 64 ^ length s)"
    using b64_num_tildes[of "length s"] by auto
  also have "\<dots> = (64 ^ length s \<le> b64_num s + 1)"
    using b64_num_less[of s] by auto
  finally show ?thesis
    using True by (auto simp: increment_def)
qed

text \<open>
  Padding on the right multiplies the numeral by a power of 64, so \<open>increment\<close> adds
  \<open>64 ^ (11 - length s)\<close> to the decoded integer.
\<close>

lemma b64_num_append: "b64_num (xs @ ys) = b64_num xs * 64 ^ length ys + b64_num ys"
  by (induction xs) (auto simp: algebra_simps power_add)

lemma zero_val: "base2int (CHR ''0'') = 0"
  by (simp add: base2int_def alphabet_def)

lemma b64_num_zeros: "b64_num (replicate k (CHR ''0'')) = 0"
  by (induction k) (auto simp: zero_val)

lemma b64_num_rpad: "b64_num (rpad n s) = b64_num s * 64 ^ (n - length s)"
  by (simp add: rpad_def b64_num_append b64_num_zeros)

text \<open>
  A string of one or more \<open>~\<close> denotes at least \<open>63 * 64 ^ 10\<close>, which is beyond
  \<open>2 ^ 64\<close>: the value of a Timestamp can always be incremented at its length.
\<close>

lemma timestamp_value_increment:
  assumes "timestamp_value s"
  shows "\<exists>t. increment s = Inr t"
proof -
  have ne: "s \<noteq> []" and len: "length s \<le> 11" and v: "is_base64 s"
    and r: "b64_num (rpad 11 s) < 2 ^ 64"
    using assms by (auto simp: timestamp_value_def compact_value_def valid_compact_def)
  have "s \<noteq> replicate (length s) (CHR ''~'')"
  proof
    assume a: "s = replicate (length s) (CHR ''~'')"
    obtain t where s: "s = CHR ''~'' # t"
      using ne a by (cases s) auto
    have lt: "length (t @ replicate (11 - length s) (CHR ''0'')) = 10"
      using len s by simp
    have "rpad 11 s = CHR ''~'' # (t @ replicate (11 - length s) (CHR ''0''))"
      unfolding rpad_def by (subst s) simp
    then have "b64_num (rpad 11 s) =
            63 * 64 ^ 10 + b64_num (t @ replicate (11 - length s) (CHR ''0''))"
      using lt by (simp add: tilde_val)
    then show False
      using r by simp
  qed
  then show ?thesis
    using v increment_returns_iff by blast
qed

subsection \<open>Relax\<close>

lemma find_SomeD: "find P xs = Some x \<Longrightarrow> P x \<and> x \<in> set xs"
  by (induction xs) (auto split: if_splits)

lemma relax_cases: "compare (relax v b m) b = 1 \<or> relax v b m = v"
  by (auto simp: relax_def split: option.splits dest: find_SomeD)

lemma relax_prefix: "prefix (relax v b m) v"
  by (auto simp: relax_def take_is_prefix split: option.splits)

lemma relax_length: "min (nat m) (length v) \<le> length (relax v b m)"
  by (auto simp: relax_def split: option.splits dest!: find_SomeD)

subsection \<open>The order of Timestamps\<close>

lemma Stamp_gt_padded:
  assumes "stamp_width a \<le> n" "stamp_width b \<le> n"
  shows "Stamp_gt a b =
          (rpad n (st_value b) < rpad n (st_value a) \<or>
           rpad n (st_value a) = rpad n (st_value b) \<and>
           rpad n (st_origin b) < rpad n (st_origin a))"
proof -
  have l: "length (st_value a) \<le> n" "length (st_value b) \<le> n"
          "length (st_origin a) \<le> n" "length (st_origin b) \<le> n"
    using assms by (auto simp: stamp_width_def)
  show ?thesis
    unfolding Stamp_gt_def
    by (simp add: compare_greater_iff[OF l(1) l(2)] compare_eq_iff[OF l(1) l(2)]
        compare_greater_iff[OF l(3) l(4)])
qed

lemma lex2_trans:
  fixes a1 b1 c1 :: "'a::linorder" and a2 b2 c2 :: "'b::linorder"
  shows "b1 < a1 \<or> a1 = b1 \<and> b2 < a2 \<Longrightarrow> c1 < b1 \<or> b1 = c1 \<and> c2 < b2 \<Longrightarrow>
         c1 < a1 \<or> a1 = c1 \<and> c2 < a2"
  by auto

lemma lex2_over:
  fixes a1 b1 c1 :: "'a::linorder" and a2 b2 c2 :: "'b::linorder"
  shows "b1 < a1 \<or> a1 = b1 \<and> b2 < a2 \<Longrightarrow> \<not> (b1 < c1 \<or> c1 = b1 \<and> b2 < c2) \<Longrightarrow>
         c1 < a1 \<or> a1 = c1 \<and> c2 < a2"
  by auto

lemma Stamp_gt_irrefl: "\<not> Stamp_gt a a"
  by (simp add: Stamp_gt_padded[of a "stamp_width a" a])

lemma Stamp_gt_trans:
  assumes "Stamp_gt a b" "Stamp_gt b c"
  shows "Stamp_gt a c"
proof -
  let ?n = "max (stamp_width a) (max (stamp_width b) (stamp_width c))"
  have w: "stamp_width a \<le> ?n" "stamp_width b \<le> ?n" "stamp_width c \<le> ?n"
    by auto
  have 1: "rpad ?n (st_value b) < rpad ?n (st_value a) \<or>
           rpad ?n (st_value a) = rpad ?n (st_value b) \<and>
           rpad ?n (st_origin b) < rpad ?n (st_origin a)"
    using assms(1) Stamp_gt_padded[OF w(1) w(2)] by blast
  have 2: "rpad ?n (st_value c) < rpad ?n (st_value b) \<or>
           rpad ?n (st_value b) = rpad ?n (st_value c) \<and>
           rpad ?n (st_origin c) < rpad ?n (st_origin b)"
    using assms(2) Stamp_gt_padded[OF w(2) w(3)] by blast
  show ?thesis
    using lex2_trans[OF 1 2] Stamp_gt_padded[OF w(1) w(3)] by blast
qed

text \<open>A Timestamp above \<open>l\<close> is above everything that is not above \<open>l\<close>.\<close>

lemma Stamp_gt_over:
  assumes "Stamp_gt r l" "\<not> Stamp_gt s l"
  shows "Stamp_gt r s"
proof -
  let ?n = "max (stamp_width r) (max (stamp_width l) (stamp_width s))"
  have w: "stamp_width r \<le> ?n" "stamp_width l \<le> ?n" "stamp_width s \<le> ?n"
    by auto
  have 1: "rpad ?n (st_value l) < rpad ?n (st_value r) \<or>
           rpad ?n (st_value r) = rpad ?n (st_value l) \<and>
           rpad ?n (st_origin l) < rpad ?n (st_origin r)"
    using assms(1) Stamp_gt_padded[OF w(1) w(2)] by blast
  have 2: "\<not> (rpad ?n (st_value l) < rpad ?n (st_value s) \<or>
           rpad ?n (st_value s) = rpad ?n (st_value l) \<and>
           rpad ?n (st_origin l) < rpad ?n (st_origin s))"
    using assms(2) Stamp_gt_padded[OF w(3) w(2)] by blast
  show ?thesis
    using lex2_over[OF 1 2] Stamp_gt_padded[OF w(1) w(3)] by blast
qed

lemma Stamp_gt_asym: "Stamp_gt a b \<Longrightarrow> \<not> Stamp_gt b a"
  using Stamp_gt_trans Stamp_gt_irrefl by blast

lemma Stamp_gt_value: "compare (st_value a) (st_value b) = 1 \<Longrightarrow> Stamp_gt a b"
  by (simp add: Stamp_gt_def)

subsection \<open>One call\<close>

lemma Stamp_next_Inr:
  "Stamp_next s org = Inr n \<Longrightarrow>
     increment (st_value s) = Inr (st_value n) \<and> st_origin n = org"
  by (auto simp: Stamp_next_def split: sum.splits)

lemma Stamp_next_greater: "Stamp_next s org = Inr n \<Longrightarrow> Stamp_gt n s"
  using Stamp_next_Inr[of s org n] increment_greater Stamp_gt_value by blast

lemma issue_cases:
  "issueTimestamp wall c = (res, c') \<Longrightarrow>
     (\<exists>e. res = Inl e \<and> c' = c \<and> Stamp_next (clk_last c) (clk_origin c) = Inl e \<and>
          \<not> Stamp_gt (Stamp_now wall (clk_origin c) (clk_offset c)) (clk_last c)) \<or>
     (\<exists>r. res = Inr r \<and> c' = c\<lparr>clk_last := r\<rparr> \<and> Stamp_gt r (clk_last c) \<and>
          st_origin r = clk_origin c)"
proof -
  assume a: "issueTimestamp wall c = (res, c')"
  let ?cand = "Stamp_now wall (clk_origin c) (clk_offset c)"
  show ?thesis
  proof (cases "Stamp_gt ?cand (clk_last c)")
    case False
    show ?thesis
    proof (cases "Stamp_next (clk_last c) (clk_origin c)")
      case (Inl e)
      have "res = Inl e" "c' = c"
        using a False Inl by (auto simp: issueTimestamp_def Let_def)
      then show ?thesis
        using False Inl by simp
    next
      case (Inr n)
      then have "res = Inr n" "c' = c\<lparr>clk_last := n\<rparr>"
        using a False by (auto simp: issueTimestamp_def Let_def)
      then show ?thesis
        using Stamp_next_greater[OF Inr] Stamp_next_Inr[OF Inr] by simp
    qed
  next
    case True
    show ?thesis
    proof (cases "clk_minlen c < 8")
      case short: True
      let ?v = "relax (st_value ?cand) (st_value (clk_last c)) (clk_minlen c)"
      let ?n = "\<lparr>st_value = ?v, st_origin = clk_origin c\<rparr>"
      have r: "res = Inr ?n" "c' = c\<lparr>clk_last := ?n\<rparr>"
        using a True short by (auto simp: issueTimestamp_def Let_def)
      have "Stamp_gt ?n (clk_last c)"
      proof -
        consider "compare ?v (st_value (clk_last c)) = 1" | "?v = st_value ?cand"
          using relax_cases by blast
        then show ?thesis
        proof cases
          case 1
          then show ?thesis by (simp add: Stamp_gt_value)
        next
          case 2
          then have "?n = ?cand" by (simp add: Stamp_now_def)
          then show ?thesis using True by simp
        qed
      qed
      then show ?thesis using r by simp
    next
      case long: False
      then have "res = Inr ?cand" "c' = c\<lparr>clk_last := ?cand\<rparr>"
        using a True by (auto simp: issueTimestamp_def Let_def)
      then show ?thesis
        using True by (simp add: Stamp_now_def)
    qed
  qed
qed

lemma see_cases:
  "seeTimestamp arg c =
     (case Stamp_as arg of
        Inl e \<Rightarrow> (Inl e, c)
      | Inr s \<Rightarrow> (Inr (), c\<lparr>clk_last := if Stamp_gt s (clk_last c) then s else clk_last c\<rparr>))"
  by (simp add: seeTimestamp_def split: sum.splits)

section \<open>Monotonicity of the clock\<close>

lemma step_invariant:
  assumes st: "step c x = (out, c')"
    and inv: "\<forall>s\<in>P. \<not> Stamp_gt s (clk_last c)"
  shows "(\<forall>r. out = Issued r \<longrightarrow> (\<forall>s\<in>P. Stamp_gt r s))"
    and "\<forall>s\<in>P \<union> {t. out = Issued t \<or> out = Seen t}. \<not> Stamp_gt s (clk_last c')"
proof -
  show "\<forall>r. out = Issued r \<longrightarrow> (\<forall>s\<in>P. Stamp_gt r s)"
  proof (intro allI impI ballI)
    fix r s
    assume o: "out = Issued r" and s: "s \<in> P"
    then obtain wall where x: "x = Issue wall"
      using st by (cases x) (auto split: sum.splits prod.splits)
    obtain res where i: "issueTimestamp wall c = (res, c')"
      using st x by (auto split: sum.splits prod.splits)
    have "res = Inr r"
      using st x i o by (auto split: sum.splits)
    then have "Stamp_gt r (clk_last c)"
      using issue_cases[OF i] by auto
    then show "Stamp_gt r s"
      using inv s Stamp_gt_over by blast
  qed
  show "\<forall>s\<in>P \<union> {t. out = Issued t \<or> out = Seen t}. \<not> Stamp_gt s (clk_last c')"
  proof (cases x)
    case (Issue wall)
    obtain res where i: "issueTimestamp wall c = (res, c')"
      using st Issue by (auto split: sum.splits prod.splits)
    from issue_cases[OF i] show ?thesis
    proof (elim disjE exE conjE)
      fix e
      assume "res = Inl e" "c' = c"
      then have "out = Failed e"
        using st Issue i by simp
      then show ?thesis
        using inv \<open>c' = c\<close> by simp
    next
      fix r
      assume r: "res = Inr r" "c' = c\<lparr>clk_last := r\<rparr>" "Stamp_gt r (clk_last c)"
      then have o: "out = Issued r"
        using st Issue i by simp
      have "\<not> Stamp_gt s r" if "s \<in> P" for s
        using that inv r(3) Stamp_gt_over Stamp_gt_asym by blast
      then show ?thesis
        using o r(2) Stamp_gt_irrefl by auto
    qed
  next
    case (See arg)
    show ?thesis
    proof (cases "Stamp_as arg")
      case (Inl e)
      then have "out = Failed e" "c' = c"
        using st See by (auto simp: see_cases)
      then show ?thesis
        using inv by simp
    next
      case (Inr t)
      then have o: "out = Seen t"
        and c': "clk_last c' = (if Stamp_gt t (clk_last c) then t else clk_last c)"
        using st See by (auto simp: see_cases)
      show ?thesis
      proof (cases "Stamp_gt t (clk_last c)")
        case True
        have "\<not> Stamp_gt s t" if "s \<in> P" for s
          using that inv True Stamp_gt_over Stamp_gt_asym by blast
        then show ?thesis
          using o c' True Stamp_gt_irrefl by auto
      next
        case False
        then show ?thesis
          using o c' inv by auto
      qed
    qed
  qed
qed

lemma run_Cons:
  "run c (x # xs) = (fst (step c x) # fst (run (snd (step c x)) xs), snd (run (snd (step c x)) xs))"
  by (simp add: case_prod_beta)

lemma run_monotonic:
  "fst (run c calls) = pre @ Issued r # post \<Longrightarrow>
   \<forall>s\<in>P. \<not> Stamp_gt s (clk_last c) \<Longrightarrow>
   s \<in> P \<or> Issued s \<in> set pre \<or> Seen s \<in> set pre \<Longrightarrow> Stamp_gt r s"
proof (induction calls arbitrary: c pre P)
  case Nil
  then show ?case by simp
next
  case (Cons x xs)
  obtain out c' where st: "step c x = (out, c')"
    by (cases "step c x")
  have log: "out # fst (run c' xs) = pre @ Issued r # post"
    using Cons.prems(1) st by (simp add: case_prod_beta)
  note inv = step_invariant[OF st Cons.prems(2)]
  show ?case
  proof (cases pre)
    case Nil
    then have "out = Issued r" "s \<in> P"
      using log Cons.prems(3) by auto
    then show ?thesis
      using inv(1) by blast
  next
    case (Cons p pre')
    then have p: "p = out" and rest: "fst (run c' xs) = pre' @ Issued r # post"
      using log by auto
    let ?P = "P \<union> {t. out = Issued t \<or> out = Seen t}"
    have "s \<in> ?P \<or> Issued s \<in> set pre' \<or> Seen s \<in> set pre'"
      using Cons.prems(3) Cons p by auto
    then show ?thesis
      using Cons.IH[OF rest inv(2)] by blast
  qed
qed

text \<open>
  C1. For every sequence of interleaved calls to \<open>issueTimestamp\<close> and \<open>seeTimestamp\<close> on
  one clock, every Timestamp \<open>issueTimestamp\<close> returns is strictly greater than every
  Timestamp returned earlier by \<open>issueTimestamp\<close> and every Timestamp passed earlier to
  \<open>seeTimestamp\<close>.
\<close>

theorem issueTimestamp_monotonic:
  assumes "fst (run c calls) = pre @ Issued r # post"
    and "Issued s \<in> set pre \<or> Seen s \<in> set pre"
  shows "Stamp_gt r s"
  using run_monotonic[OF assms(1), of "{}" s] assms(2) by simp

text \<open>The definitions a concrete call is evaluated with.\<close>

lemmas eval_defs = issueTimestamp_def seeTimestamp_def Stamp_gt_def compare_def rpad_def
  Stamp_now_def reads_def Stamp_next_def increment_def is_base64_def alphabet_def
  base2int_def int2base_def relax_def Let_def

theorem issueTimestamp_monotonic_witness:
  "fst (run \<lparr>clk_last = \<lparr>st_value = ''1CQKne'', st_origin = ''me''\<rparr>, clk_origin = ''me'',
              clk_offset = 0, clk_minlen = 6\<rparr>
         [See (Obj \<lparr>st_value = ''1CQKnk'', st_origin = ''peer''\<rparr>), Issue (reads ''1CQKnf'')])
     = [Seen \<lparr>st_value = ''1CQKnk'', st_origin = ''peer''\<rparr>]
       @ Issued \<lparr>st_value = ''1CQKnl'', st_origin = ''me''\<rparr> # [] \<and>
   Stamp_gt \<lparr>st_value = ''1CQKnl'', st_origin = ''me''\<rparr>
            \<lparr>st_value = ''1CQKnk'', st_origin = ''peer''\<rparr>"
proof -
  have log: "fst (run \<lparr>clk_last = \<lparr>st_value = ''1CQKne'', st_origin = ''me''\<rparr>, clk_origin = ''me'',
              clk_offset = 0, clk_minlen = 6\<rparr>
         [See (Obj \<lparr>st_value = ''1CQKnk'', st_origin = ''peer''\<rparr>), Issue (reads ''1CQKnf'')])
     = [Seen \<lparr>st_value = ''1CQKnk'', st_origin = ''peer''\<rparr>]
       @ Issued \<lparr>st_value = ''1CQKnl'', st_origin = ''me''\<rparr> # []"
    by (simp add: eval_defs)
  show ?thesis
    using log issueTimestamp_monotonic[OF log, of "\<lparr>st_value = ''1CQKnk'', st_origin = ''peer''\<rparr>"]
    by simp
qed

section \<open>Issuing on a clock that did not advance\<close>

text \<open>
  C2. When the wall-clock candidate is not strictly greater than \<open>last\<close>,
  \<open>issueTimestamp\<close> does what \<open>last.next(origin)\<close> does, and on a clock whose \<open>last\<close> has
  the value of a Timestamp it returns that Timestamp and makes it the new \<open>last\<close>. In
  particular, when a first issue returned \<open>r1\<close> and the candidate of the second issue is
  not strictly greater than \<open>r1\<close>, the second issue returns a Timestamp that is distinct
  from \<open>r1\<close>, carries the clock's origin, and whose value is the increment of the value
  of \<open>r1\<close>: the same length, one greater in the last symbol, and as a decoded integer
  greater by \<open>64 ^ (11 - length)\<close>.
\<close>

theorem issueTimestamp_fallback:
  "(\<not> Stamp_gt (Stamp_now wall (clk_origin c) (clk_offset c)) (clk_last c) \<longrightarrow>
      issueTimestamp wall c =
        (case Stamp_next (clk_last c) (clk_origin c) of
           Inl e \<Rightarrow> (Inl e, c)
         | Inr n \<Rightarrow> (Inr n, c\<lparr>clk_last := n\<rparr>))) \<and>
   (\<not> Stamp_gt (Stamp_now wall (clk_origin c) (clk_offset c)) (clk_last c) \<and>
    timestamp_value (st_value (clk_last c)) \<longrightarrow>
      (\<exists>n. Stamp_next (clk_last c) (clk_origin c) = Inr n \<and>
           issueTimestamp wall c = (Inr n, c\<lparr>clk_last := n\<rparr>))) \<and>
   (issueTimestamp wall c = (Inr r1, c1) \<and>
    \<not> Stamp_gt (Stamp_now wall2 (clk_origin c1) (clk_offset c1)) r1 \<and>
    timestamp_value (st_value r1) \<longrightarrow>
      (\<exists>r2 c2. issueTimestamp wall2 c1 = (Inr r2, c2) \<and> r2 \<noteq> r1 \<and> Stamp_gt r2 r1 \<and>
         st_origin r2 = clk_origin c \<and>
         increment (st_value r1) = Inr (st_value r2) \<and>
         length (st_value r2) = length (st_value r1) \<and>
         b64_num (st_value r2) = b64_num (st_value r1) + 1 \<and>
         b64_num (rpad 11 (st_value r2)) =
           b64_num (rpad 11 (st_value r1)) + 64 ^ (11 - length (st_value r1))))"
proof (intro conjI impI)
  assume "\<not> Stamp_gt (Stamp_now wall (clk_origin c) (clk_offset c)) (clk_last c)"
  then show "issueTimestamp wall c =
        (case Stamp_next (clk_last c) (clk_origin c) of
           Inl e \<Rightarrow> (Inl e, c)
         | Inr n \<Rightarrow> (Inr n, c\<lparr>clk_last := n\<rparr>))"
    by (simp add: issueTimestamp_def Let_def)
next
  assume a: "\<not> Stamp_gt (Stamp_now wall (clk_origin c) (clk_offset c)) (clk_last c) \<and>
    timestamp_value (st_value (clk_last c))"
  obtain v where v: "increment (st_value (clk_last c)) = Inr v"
    using timestamp_value_increment a by blast
  let ?n = "\<lparr>st_value = v, st_origin = clk_origin c\<rparr>"
  have nx: "Stamp_next (clk_last c) (clk_origin c) = Inr ?n"
    using v by (simp add: Stamp_next_def)
  have "issueTimestamp wall c = (Inr ?n, c\<lparr>clk_last := ?n\<rparr>)"
    using a nx by (simp add: issueTimestamp_def Let_def)
  then show "\<exists>n. Stamp_next (clk_last c) (clk_origin c) = Inr n \<and>
           issueTimestamp wall c = (Inr n, c\<lparr>clk_last := n\<rparr>)"
    using nx by blast
next
  assume a: "issueTimestamp wall c = (Inr r1, c1) \<and>
    \<not> Stamp_gt (Stamp_now wall2 (clk_origin c1) (clk_offset c1)) r1 \<and>
    timestamp_value (st_value r1)"
  have c1: "c1 = c\<lparr>clk_last := r1\<rparr>"
    using issue_cases[of wall c "Inr r1" c1] a by auto
  obtain v where v: "increment (st_value r1) = Inr v"
    using timestamp_value_increment a by blast
  let ?r2 = "\<lparr>st_value = v, st_origin = clk_origin c\<rparr>"
  have nx: "Stamp_next r1 (clk_origin c) = Inr ?r2"
    using v by (simp add: Stamp_next_def)
  have i2: "issueTimestamp wall2 c1 = (Inr ?r2, c1\<lparr>clk_last := ?r2\<rparr>)"
    using a nx c1 by (simp add: issueTimestamp_def Let_def)
  have ne: "?r2 \<noteq> r1"
    using increment_neq[OF v] by auto
  have gt: "Stamp_gt ?r2 r1"
    using Stamp_next_greater[OF nx] .
  have len: "length (st_value ?r2) = length (st_value r1)"
    and num: "b64_num (st_value ?r2) = b64_num (st_value r1) + 1"
    using increment_Inr[OF v] by simp_all
  have dec: "b64_num (rpad 11 (st_value ?r2)) =
           b64_num (rpad 11 (st_value r1)) + 64 ^ (11 - length (st_value r1))"
    using len num by (simp add: b64_num_rpad algebra_simps)
  show "\<exists>r2 c2. issueTimestamp wall2 c1 = (Inr r2, c2) \<and> r2 \<noteq> r1 \<and> Stamp_gt r2 r1 \<and>
         st_origin r2 = clk_origin c \<and>
         increment (st_value r1) = Inr (st_value r2) \<and>
         length (st_value r2) = length (st_value r1) \<and>
         b64_num (st_value r2) = b64_num (st_value r1) + 1 \<and>
         b64_num (rpad 11 (st_value r2)) =
           b64_num (rpad 11 (st_value r1)) + 64 ^ (11 - length (st_value r1))"
    using i2 ne gt len num dec v
    by (intro exI[of _ ?r2] exI[of _ "c1\<lparr>clk_last := ?r2\<rparr>"]) simp
qed

text \<open>The definitions the value of a Timestamp is checked with.\<close>

lemmas value_defs = timestamp_value_def compact_value_def valid_compact_def is_base64_def
  alphabet_def rpad_def base2int_def b64_num_zeros

theorem issueTimestamp_fallback_witness:
  "\<not> Stamp_gt (Stamp_now (reads ''1CQKne'') ''me'' 0) \<lparr>st_value = ''1CQKne'', st_origin = ''me''\<rparr> \<and>
   timestamp_value ''1CQKne'' \<and>
   issueTimestamp (reads ''1CQKne'')
      \<lparr>clk_last = \<lparr>st_value = ''1CQKne'', st_origin = ''me''\<rparr>, clk_origin = ''me'',
       clk_offset = 0, clk_minlen = 6\<rparr>
     = (Inr \<lparr>st_value = ''1CQKnf'', st_origin = ''me''\<rparr>,
        \<lparr>clk_last = \<lparr>st_value = ''1CQKnf'', st_origin = ''me''\<rparr>, clk_origin = ''me'',
         clk_offset = 0, clk_minlen = 6\<rparr>) \<and>
   \<not> Stamp_gt (Stamp_now (reads ''1CQKne'') ''me'' 0) \<lparr>st_value = ''1CQKnf'', st_origin = ''me''\<rparr> \<and>
   timestamp_value ''1CQKnf'' \<and>
   (\<exists>r2 c2. issueTimestamp (reads ''1CQKne'')
        \<lparr>clk_last = \<lparr>st_value = ''1CQKnf'', st_origin = ''me''\<rparr>, clk_origin = ''me'',
         clk_offset = 0, clk_minlen = 6\<rparr> = (Inr r2, c2) \<and>
      r2 \<noteq> \<lparr>st_value = ''1CQKnf'', st_origin = ''me''\<rparr> \<and>
      Stamp_gt r2 \<lparr>st_value = ''1CQKnf'', st_origin = ''me''\<rparr> \<and>
      st_origin r2 = ''me'' \<and>
      increment ''1CQKnf'' = Inr (st_value r2) \<and>
      length (st_value r2) = length ''1CQKnf'' \<and>
      b64_num (st_value r2) = b64_num ''1CQKnf'' + 1 \<and>
      b64_num (rpad 11 (st_value r2)) = b64_num (rpad 11 ''1CQKnf'') + 64 ^ (11 - length ''1CQKnf''))"
proof -
  let ?c = "\<lparr>clk_last = \<lparr>st_value = ''1CQKne'', st_origin = ''me''\<rparr>, clk_origin = ''me'',
       clk_offset = 0, clk_minlen = 6\<rparr>"
  let ?r1 = "\<lparr>st_value = ''1CQKnf'', st_origin = ''me''\<rparr>"
  let ?c1 = "\<lparr>clk_last = ?r1, clk_origin = ''me'', clk_offset = 0, clk_minlen = 6\<rparr>"
  have stall: "\<not> Stamp_gt (Stamp_now (reads ''1CQKne'') ''me'' 0) \<lparr>st_value = ''1CQKne'', st_origin = ''me''\<rparr>"
    by (simp add: eval_defs)
  have tv: "timestamp_value ''1CQKne''" "timestamp_value ''1CQKnf''"
    by (simp_all add: value_defs)
  have first: "issueTimestamp (reads ''1CQKne'') ?c = (Inr ?r1, ?c1)"
    by (simp add: eval_defs)
  have stall2: "\<not> Stamp_gt (Stamp_now (reads ''1CQKne'') ''me'' 0) ?r1"
    by (simp add: eval_defs)
  have "\<exists>r2 c2. issueTimestamp (reads ''1CQKne'') ?c1 = (Inr r2, c2) \<and> r2 \<noteq> ?r1 \<and>
      Stamp_gt r2 ?r1 \<and> st_origin r2 = ''me'' \<and>
      increment ''1CQKnf'' = Inr (st_value r2) \<and>
      length (st_value r2) = length ''1CQKnf'' \<and>
      b64_num (st_value r2) = b64_num ''1CQKnf'' + 1 \<and>
      b64_num (rpad 11 (st_value r2)) = b64_num (rpad 11 ''1CQKnf'') + 64 ^ (11 - length ''1CQKnf'')"
    using conjunct2[OF conjunct2[OF
          issueTimestamp_fallback[of "reads ''1CQKne''" ?c ?r1 ?c1 "reads ''1CQKne''"]]]
      first stall2 tv(2)
    by simp
  then show ?thesis
    using stall tv first stall2 by blast
qed

text \<open>
  Two issues at the same wall-clock reading, on a clock with \<open>minLength = 6\<close>: the first
  result is the reading cut to 6 symbols, the reading is still strictly greater than
  it, and the second result is the reading cut to 7 symbols, not the increment of the
  first.
\<close>

theorem issueTimestamp_fallback_counterexample:
  "issueTimestamp (reads ''1CQKneAB'')
      \<lparr>clk_last = \<lparr>st_value = ''1CQKmz'', st_origin = ''me''\<rparr>, clk_origin = ''me'',
       clk_offset = 0, clk_minlen = 6\<rparr>
     = (Inr \<lparr>st_value = ''1CQKne'', st_origin = ''me''\<rparr>,
        \<lparr>clk_last = \<lparr>st_value = ''1CQKne'', st_origin = ''me''\<rparr>, clk_origin = ''me'',
         clk_offset = 0, clk_minlen = 6\<rparr>) \<and>
   issueTimestamp (reads ''1CQKneAB'')
      \<lparr>clk_last = \<lparr>st_value = ''1CQKne'', st_origin = ''me''\<rparr>, clk_origin = ''me'',
       clk_offset = 0, clk_minlen = 6\<rparr>
     = (Inr \<lparr>st_value = ''1CQKneA'', st_origin = ''me''\<rparr>,
        \<lparr>clk_last = \<lparr>st_value = ''1CQKneA'', st_origin = ''me''\<rparr>, clk_origin = ''me'',
         clk_offset = 0, clk_minlen = 6\<rparr>) \<and>
   Stamp_next \<lparr>st_value = ''1CQKne'', st_origin = ''me''\<rparr> ''me''
     = Inr \<lparr>st_value = ''1CQKnf'', st_origin = ''me''\<rparr> \<and>
   decode ''1CQKne'' = Inr (b64_num ''1CQKne00000'') \<and>
   decode ''1CQKneA'' = Inr (b64_num ''1CQKne00000'' + 10 * 64 ^ 4)"
  by (simp add: eval_defs decode_def upt_rec b64_num_zeros)

section \<open>Issuing on a clock that advanced\<close>

text \<open>
  C3. On a clock whose \<open>minLength\<close> is less than 8, when the wall-clock candidate is
  strictly greater than \<open>last\<close>, \<open>issueTimestamp\<close> returns the Timestamp that has the
  candidate's origin and the candidate's value relaxed against the value of \<open>last\<close> with
  the clock's \<open>minLength\<close>, and that Timestamp is the new \<open>last\<close>. The relaxed value is a
  prefix of the candidate's value and keeps at least \<open>minLength\<close> symbols of it (all of
  them when the candidate's value is shorter).
\<close>

theorem issueTimestamp_relaxes:
  assumes "clk_minlen c < 8"
    and "Stamp_gt (Stamp_now wall (clk_origin c) (clk_offset c)) (clk_last c)"
  shows "let cand = Stamp_now wall (clk_origin c) (clk_offset c) in
         \<exists>r. issueTimestamp wall c = (Inr r, c\<lparr>clk_last := r\<rparr>) \<and>
             st_origin r = st_origin cand \<and>
             st_value r = relax (st_value cand) (st_value (clk_last c)) (clk_minlen c) \<and>
             prefix (st_value r) (st_value cand) \<and>
             min (nat (clk_minlen c)) (length (st_value cand)) \<le> length (st_value r)"
  using assms
  by (simp add: issueTimestamp_def Let_def relax_prefix relax_length Stamp_now_def)

theorem issueTimestamp_relaxes_witness:
  "(6::int) < 8 \<and>
   Stamp_gt (Stamp_now (reads ''1CQKneAB000'') ''me'' 0) \<lparr>st_value = ''1CQKmz'', st_origin = ''me''\<rparr> \<and>
   issueTimestamp (reads ''1CQKneAB000'')
      \<lparr>clk_last = \<lparr>st_value = ''1CQKmz'', st_origin = ''me''\<rparr>, clk_origin = ''me'',
       clk_offset = 0, clk_minlen = 6\<rparr>
     = (Inr \<lparr>st_value = ''1CQKne'', st_origin = ''me''\<rparr>,
        \<lparr>clk_last = \<lparr>st_value = ''1CQKne'', st_origin = ''me''\<rparr>, clk_origin = ''me'',
         clk_offset = 0, clk_minlen = 6\<rparr>) \<and>
   relax ''1CQKneAB000'' ''1CQKmz'' 6 = ''1CQKne'' \<and>
   prefix ''1CQKne'' ''1CQKneAB000''"
proof -
  let ?c = "\<lparr>clk_last = \<lparr>st_value = ''1CQKmz'', st_origin = ''me''\<rparr>, clk_origin = ''me'',
       clk_offset = 0, clk_minlen = 6\<rparr>"
  have short: "clk_minlen ?c < 8"
    by simp
  have ahead: "Stamp_gt (Stamp_now (reads ''1CQKneAB000'') (clk_origin ?c) (clk_offset ?c)) (clk_last ?c)"
    by (simp add: eval_defs)
  have rel: "relax ''1CQKneAB000'' ''1CQKmz'' 6 = ''1CQKne''"
    by (simp add: eval_defs upt_rec)
  show ?thesis
    using issueTimestamp_relaxes[OF short ahead] ahead rel
    by (auto simp: Let_def Stamp_now_def reads_def)
qed

section \<open>Seeing a Timestamp\<close>

text \<open>
  C4. For a Timestamp \<open>s\<close> passed to \<open>seeTimestamp\<close>: when \<open>s\<close> is strictly greater than
  \<open>last\<close>, \<open>last\<close> becomes \<open>s\<close>; otherwise \<open>last\<close> is unchanged. Consequently every
  Timestamp the next \<open>issueTimestamp\<close> returns is strictly greater than \<open>s\<close>; and when
  \<open>s\<close> and \<open>last\<close> have the value of a Timestamp, the next \<open>issueTimestamp\<close> returns one,
  whatever the wall clock reads, also when \<open>s\<close> is ahead of it.
\<close>

theorem seeTimestamp_adopts:
  assumes "Stamp_as arg = Inr s"
  shows "seeTimestamp arg c =
           (Inr (), c\<lparr>clk_last := if Stamp_gt s (clk_last c) then s else clk_last c\<rparr>) \<and>
         (\<forall>wall r. fst (issueTimestamp wall (snd (seeTimestamp arg c))) = Inr r \<longrightarrow> Stamp_gt r s) \<and>
         (timestamp_value (st_value s) \<and> timestamp_value (st_value (clk_last c)) \<longrightarrow>
            (\<forall>wall. \<exists>r. fst (issueTimestamp wall (snd (seeTimestamp arg c))) = Inr r \<and>
                        Stamp_gt r s))"
proof -
  let ?c' = "snd (seeTimestamp arg c)"
  have see: "seeTimestamp arg c =
           (Inr (), c\<lparr>clk_last := if Stamp_gt s (clk_last c) then s else clk_last c\<rparr>)"
    using assms by (simp add: see_cases)
  have below: "\<not> Stamp_gt s (clk_last ?c')"
    using see Stamp_gt_irrefl by auto
  have gt: "Stamp_gt r s" if "fst (issueTimestamp wall ?c') = Inr r" for wall r
  proof -
    have "issueTimestamp wall ?c' = (Inr r, snd (issueTimestamp wall ?c'))"
      using that by (metis prod.collapse)
    then have "Stamp_gt r (clk_last ?c')"
      using issue_cases by blast
    then show ?thesis
      using below Stamp_gt_over by blast
  qed
  have ex: "\<exists>r. fst (issueTimestamp wall ?c') = Inr r \<and> Stamp_gt r s"
    if h: "timestamp_value (st_value s) \<and> timestamp_value (st_value (clk_last c))"
    for wall
  proof -
    have "timestamp_value (st_value (clk_last ?c'))"
      using see h by auto
    then obtain t where t: "increment (st_value (clk_last ?c')) = Inr t"
      using timestamp_value_increment by blast
    obtain res d where i: "issueTimestamp wall ?c' = (res, d)"
      by (cases "issueTimestamp wall ?c'")
    have "\<exists>r. res = Inr r"
      using issue_cases[OF i] t by (auto simp: Stamp_next_def)
    then obtain r where "res = Inr r"
      by blast
    then have "fst (issueTimestamp wall ?c') = Inr r"
      using i by simp
    then show ?thesis
      using gt by blast
  qed
  show ?thesis
    using see gt ex by blast
qed

theorem seeTimestamp_adopts_witness:
  "Stamp_as (Obj \<lparr>st_value = ''1CQKnk'', st_origin = ''peer''\<rparr>)
     = Inr \<lparr>st_value = ''1CQKnk'', st_origin = ''peer''\<rparr> \<and>
   timestamp_value ''1CQKnk'' \<and> timestamp_value ''1CQKne'' \<and>
   seeTimestamp (Obj \<lparr>st_value = ''1CQKnk'', st_origin = ''peer''\<rparr>)
      \<lparr>clk_last = \<lparr>st_value = ''1CQKne'', st_origin = ''me''\<rparr>, clk_origin = ''me'',
       clk_offset = 0, clk_minlen = 6\<rparr>
     = (Inr (), \<lparr>clk_last = \<lparr>st_value = ''1CQKnk'', st_origin = ''peer''\<rparr>, clk_origin = ''me'',
                 clk_offset = 0, clk_minlen = 6\<rparr>) \<and>
   fst (issueTimestamp (reads ''1CQKnf'')
         \<lparr>clk_last = \<lparr>st_value = ''1CQKnk'', st_origin = ''peer''\<rparr>, clk_origin = ''me'',
          clk_offset = 0, clk_minlen = 6\<rparr>)
     = Inr \<lparr>st_value = ''1CQKnl'', st_origin = ''me''\<rparr> \<and>
   Stamp_gt \<lparr>st_value = ''1CQKnl'', st_origin = ''me''\<rparr>
            \<lparr>st_value = ''1CQKnk'', st_origin = ''peer''\<rparr> \<and>
   (\<exists>r. fst (issueTimestamp (reads ''1CQKnf'')
              \<lparr>clk_last = \<lparr>st_value = ''1CQKnk'', st_origin = ''peer''\<rparr>, clk_origin = ''me'',
               clk_offset = 0, clk_minlen = 6\<rparr>) = Inr r \<and>
        Stamp_gt r \<lparr>st_value = ''1CQKnk'', st_origin = ''peer''\<rparr>)"
proof -
  let ?s = "\<lparr>st_value = ''1CQKnk'', st_origin = ''peer''\<rparr>"
  let ?c = "\<lparr>clk_last = \<lparr>st_value = ''1CQKne'', st_origin = ''me''\<rparr>, clk_origin = ''me'',
       clk_offset = 0, clk_minlen = 6\<rparr>"
  let ?c' = "\<lparr>clk_last = ?s, clk_origin = ''me'', clk_offset = 0, clk_minlen = 6\<rparr>"
  have a: "Stamp_as (Obj ?s) = Inr ?s"
    by simp
  have tv: "timestamp_value ''1CQKnk''" "timestamp_value ''1CQKne''"
    by (simp_all add: value_defs)
  have ahead: "Stamp_gt ?s (clk_last ?c)"
    by (simp add: eval_defs)
  note t = seeTimestamp_adopts[OF a, of ?c]
  have see: "seeTimestamp (Obj ?s) ?c = (Inr (), ?c')"
    using conjunct1[OF t] ahead by simp
  have iss: "fst (issueTimestamp (reads ''1CQKnf'') ?c') = Inr \<lparr>st_value = ''1CQKnl'', st_origin = ''me''\<rparr>"
    by (simp add: eval_defs)
  have g: "Stamp_gt \<lparr>st_value = ''1CQKnl'', st_origin = ''me''\<rparr> ?s"
    using conjunct1[OF conjunct2[OF t]] iss see by simp
  have "\<forall>wall. \<exists>r. fst (issueTimestamp wall (snd (seeTimestamp (Obj ?s) ?c))) = Inr r \<and> Stamp_gt r ?s"
    using conjunct2[OF conjunct2[OF t]] tv by simp
  then have e: "\<exists>r. fst (issueTimestamp (reads ''1CQKnf'') ?c') = Inr r \<and> Stamp_gt r ?s"
    using see by simp
  show ?thesis
    using a tv see iss g e by blast
qed

section \<open>Construction\<close>

lemma to_int32_id: "- (2 ^ 31) \<le> k \<Longrightarrow> k < 2 ^ 31 \<Longrightarrow> to_int32 k = k"
  by (simp add: to_int32_def)

text \<open>
  C5. A clock constructed from a Timestamp \<open>st\<close> (given as an object, or in a
  wire form that parses to \<open>st\<close>) has \<open>last = st\<close> and \<open>origin\<close> the origin of \<open>st\<close>;
  \<open>minLength\<close> is \<open>options.minLength\<close> when that is given and is not 0, and 6 otherwise;
  \<open>offset\<close> is the millisecond field of \<open>st\<close> minus the wall-clock reading when
  \<open>learnOffset\<close> is set, otherwise the given \<open>options.offset\<close> when that lies in the signed
  32-bit range (beyond it, its wrap-around \<open>offset|0\<close>), otherwise 0.
\<close>

theorem Clock_new_state:
  assumes "Stamp_as now = Inr st"
  shows "\<exists>c. Clock_new ms my_now_ms now opts = Inr c \<and>
           clk_last c = st \<and> clk_origin c = st_origin st \<and>
           clk_minlen c =
             (case opts of
                None \<Rightarrow> 6
              | Some os \<Rightarrow> (case minLength os of None \<Rightarrow> 6 | Some n \<Rightarrow> if n = 0 then 6 else n)) \<and>
           clk_offset c =
             (case opts of
                None \<Rightarrow> 0
              | Some os \<Rightarrow>
                  if learnOffset os then ms (st_value st) - my_now_ms
                  else (case offset os of
                          None \<Rightarrow> 0
                        | Some k \<Rightarrow> if - (2 ^ 31) \<le> k \<and> k < 2 ^ 31 then k else to_int32 k))"
proof -
  have p: "(case now of Wire text \<Rightarrow> Stamp_parse text | Obj s \<Rightarrow> Inr s) = Inr st"
    using assms by (cases now) auto
  have z: "to_int32 0 = 0"
    by (simp add: to_int32_def)
  show ?thesis
    unfolding Clock_new_def p
    by (auto simp: Let_def z to_int32_id split: option.splits)
qed

theorem Clock_new_state_witness:
  "Stamp_as (Wire ''1CQKne-me'') = Inr \<lparr>st_value = ''1CQKne'', st_origin = ''me''\<rparr> \<and>
   Clock_new (\<lambda>v. 1700000005000) 1700000000000 (Wire ''1CQKne-me'')
      (Some \<lparr>minLength = Some 7, learnOffset = True, offset = Some 12\<rparr>)
     = Inr \<lparr>clk_last = \<lparr>st_value = ''1CQKne'', st_origin = ''me''\<rparr>, clk_origin = ''me'',
            clk_offset = 5000, clk_minlen = 7\<rparr>"
proof -
  have a: "Stamp_as (Wire ''1CQKne-me'') = Inr \<lparr>st_value = ''1CQKne'', st_origin = ''me''\<rparr>"
    by (simp add: Stamp_parse_def is_base64_def alphabet_def)
  show ?thesis
    using Clock_new_state[OF a, of "\<lambda>v. 1700000005000" 1700000000000
        "Some \<lparr>minLength = Some 7, learnOffset = True, offset = Some 12\<rparr>"] a
    by auto
qed

theorem Clock_new_state_counterexample:
  "Clock_new (\<lambda>v. 0) 0 (Obj \<lparr>st_value = ''1CQKne'', st_origin = ''me''\<rparr>)
      (Some \<lparr>minLength = Some 0, learnOffset = False, offset = Some 2592000000\<rparr>)
     = Inr \<lparr>clk_last = \<lparr>st_value = ''1CQKne'', st_origin = ''me''\<rparr>, clk_origin = ''me'',
            clk_offset = - 1702967296, clk_minlen = 6\<rparr>"
  by (simp add: Clock_new_def to_int32_def)

section \<open>Issuing always returns\<close>



section \<open>Merging Version Vectors\<close>

text \<open>
  C8. \<open>merge\<close>, the maximum for each origin, is commutative, idempotent and associative.
\<close>

theorem merge_lattice:
  "merge A B = merge B A \<and> merge A A = A \<and> merge (merge A B) C = merge A (merge B C)"
proof (intro conjI)
  show "merge A B = merge B A"
    by (rule ext) (simp add: merge_def max.commute split: option.splits)
  show "merge A A = A"
    by (rule ext) (simp add: merge_def split: option.splits)
  show "merge (merge A B) C = merge A (merge B C)"
    by (rule ext) (simp add: merge_def max.assoc split: option.splits)
qed

section \<open>What the calls change\<close>

lemma issue_frame:
  "clk_origin (snd (issueTimestamp wall c)) = clk_origin c \<and>
   clk_offset (snd (issueTimestamp wall c)) = clk_offset c \<and>
   clk_minlen (snd (issueTimestamp wall c)) = clk_minlen c"
  by (simp add: issueTimestamp_def Let_def split: sum.splits)

lemma see_frame:
  "clk_origin (snd (seeTimestamp arg c)) = clk_origin c \<and>
   clk_offset (snd (seeTimestamp arg c)) = clk_offset c \<and>
   clk_minlen (snd (seeTimestamp arg c)) = clk_minlen c"
  by (simp add: seeTimestamp_def split: sum.splits)

lemma step_frame:
  "clk_origin (snd (step c x)) = clk_origin c \<and>
   clk_offset (snd (step c x)) = clk_offset c \<and>
   clk_minlen (snd (step c x)) = clk_minlen c"
proof (cases x)
  case (Issue wall)
  have "snd (step c (Issue wall)) = snd (issueTimestamp wall c)"
    by (simp split: prod.splits sum.splits)
  then show ?thesis
    using Issue issue_frame by simp
next
  case (See arg)
  have "snd (step c (See arg)) = snd (seeTimestamp arg c)"
    by (simp split: sum.splits)
  then show ?thesis
    using See see_frame by simp
qed

lemma run_frame:
  "clk_origin (snd (run c calls)) = clk_origin c \<and>
   clk_offset (snd (run c calls)) = clk_offset c \<and>
   clk_minlen (snd (run c calls)) = clk_minlen c"
proof (induction calls arbitrary: c)
  case Nil
  then show ?case by simp
next
  case (Cons x xs)
  have "snd (run c (x # xs)) = snd (run (snd (step c x)) xs)"
    by (simp add: case_prod_beta)
  then show ?case
    using Cons[of "snd (step c x)"] step_frame[of c x] by simp
qed

lemma issue_origin:
  assumes "fst (issueTimestamp wall c) = Inr r"
  shows "st_origin r = clk_origin c"
proof -
  have "issueTimestamp wall c = (Inr r, snd (issueTimestamp wall c))"
    using assms by (metis prod.collapse)
  from issue_cases[OF this] show ?thesis
    by auto
qed

lemma step_issued_origin: "fst (step c x) = Issued r \<Longrightarrow> st_origin r = clk_origin c"
proof (cases x)
  case (Issue wall)
  assume "fst (step c x) = Issued r"
  then have "fst (issueTimestamp wall c) = Inr r"
    using Issue by (auto split: prod.splits sum.splits)
  then show ?thesis
    by (rule issue_origin)
next
  case (See arg)
  assume "fst (step c x) = Issued r"
  then show ?thesis
    using See by (auto split: sum.splits)
qed

lemma run_issued_origin:
  "Issued r \<in> set (fst (run c calls)) \<Longrightarrow> st_origin r = clk_origin c"
proof (induction calls arbitrary: c)
  case Nil
  then show ?case by simp
next
  case (Cons x xs)
  have "fst (run c (x # xs)) = fst (step c x) # fst (run (snd (step c x)) xs)"
    by (simp add: case_prod_beta)
  then consider "fst (step c x) = Issued r" | "Issued r \<in> set (fst (run (snd (step c x)) xs))"
    using Cons.prems by auto
  then show ?case
  proof cases
    case 1
    then show ?thesis by (rule step_issued_origin)
  next
    case 2
    then show ?thesis
      using Cons.IH[of "snd (step c x)"] step_frame[of c x] by simp
  qed
qed

lemma Clock_new_origin:
  "Clock_new ms my_now_ms now opts = Inr c \<Longrightarrow> Stamp_as now = Inr st \<Longrightarrow>
     clk_origin c = st_origin st"
proof -
  assume n: "Clock_new ms my_now_ms now opts = Inr c" and a: "Stamp_as now = Inr st"
  have p: "(case now of Wire text \<Rightarrow> Stamp_parse text | Obj s \<Rightarrow> Inr s) = Inr st"
    using a by (cases now) auto
  show ?thesis
    using n unfolding Clock_new_def p
    by (auto simp: Let_def split: option.splits if_splits)
qed

text \<open>
  C9. Every Timestamp \<open>issueTimestamp\<close> returns carries the clock's own origin, whatever
  origin \<open>last\<close> has; and on a clock constructed from a Timestamp \<open>st\<close>, every Timestamp
  issued in any sequence of calls carries the origin of \<open>st\<close>.
\<close>

theorem issueTimestamp_own_origin:
  "(fst (issueTimestamp wall c) = Inr r \<longrightarrow> st_origin r = clk_origin c) \<and>
   (Clock_new ms my_now_ms now opts = Inr c0 \<and> Stamp_as now = Inr st \<and>
    Issued r' \<in> set (fst (run c0 calls)) \<longrightarrow> st_origin r' = st_origin st)"
  using issue_origin run_issued_origin Clock_new_origin by metis

theorem issueTimestamp_own_origin_witness:
  "fst (issueTimestamp (reads ''1CQKnf'')
         \<lparr>clk_last = \<lparr>st_value = ''1CQKnk'', st_origin = ''peer''\<rparr>, clk_origin = ''me'',
          clk_offset = 0, clk_minlen = 6\<rparr>)
     = Inr \<lparr>st_value = ''1CQKnl'', st_origin = ''me''\<rparr> \<and>
   Clock_new (\<lambda>v. 0) 0 (Wire ''1CQKne-me'') None
     = Inr \<lparr>clk_last = \<lparr>st_value = ''1CQKne'', st_origin = ''me''\<rparr>, clk_origin = ''me'',
            clk_offset = 0, clk_minlen = 6\<rparr> \<and>
   Stamp_as (Wire ''1CQKne-me'') = Inr \<lparr>st_value = ''1CQKne'', st_origin = ''me''\<rparr> \<and>
   fst (run \<lparr>clk_last = \<lparr>st_value = ''1CQKne'', st_origin = ''me''\<rparr>, clk_origin = ''me'',
            clk_offset = 0, clk_minlen = 6\<rparr>
          [See (Wire ''1CQKnk-peer''), Issue (reads ''1CQKnf''), Issue (reads ''1CQKp0AB000'')])
     = [Seen \<lparr>st_value = ''1CQKnk'', st_origin = ''peer''\<rparr>,
        Issued \<lparr>st_value = ''1CQKnl'', st_origin = ''me''\<rparr>,
        Issued \<lparr>st_value = ''1CQKp0'', st_origin = ''me''\<rparr>] \<and>
   st_origin \<lparr>st_value = ''1CQKp0'', st_origin = ''me''\<rparr>
     = st_origin \<lparr>st_value = ''1CQKne'', st_origin = ''me''\<rparr>"
proof -
  let ?st = "\<lparr>st_value = ''1CQKne'', st_origin = ''me''\<rparr>"
  let ?c0 = "\<lparr>clk_last = ?st, clk_origin = ''me'', clk_offset = 0, clk_minlen = 6\<rparr>"
  let ?calls = "[See (Wire ''1CQKnk-peer''), Issue (reads ''1CQKnf''), Issue (reads ''1CQKp0AB000'')]"
  let ?r = "\<lparr>st_value = ''1CQKp0'', st_origin = ''me''\<rparr>"
  have a: "Stamp_as (Wire ''1CQKne-me'') = Inr ?st"
    by (simp add: Stamp_parse_def is_base64_def alphabet_def)
  have n: "Clock_new (\<lambda>v. 0) 0 (Wire ''1CQKne-me'') None = Inr ?c0"
    by (simp add: Clock_new_def Stamp_parse_def is_base64_def alphabet_def)
  have i: "fst (issueTimestamp (reads ''1CQKnf'')
         \<lparr>clk_last = \<lparr>st_value = ''1CQKnk'', st_origin = ''peer''\<rparr>, clk_origin = ''me'',
          clk_offset = 0, clk_minlen = 6\<rparr>) = Inr \<lparr>st_value = ''1CQKnl'', st_origin = ''me''\<rparr>"
    by (simp add: eval_defs)
  have log: "fst (run ?c0 ?calls)
     = [Seen \<lparr>st_value = ''1CQKnk'', st_origin = ''peer''\<rparr>,
        Issued \<lparr>st_value = ''1CQKnl'', st_origin = ''me''\<rparr>, Issued ?r]"
    by (simp add: eval_defs Stamp_parse_def upt_rec)
  have m: "Issued ?r \<in> set (fst (run ?c0 ?calls))"
    by (simp only: log) simp
  have "st_origin ?r = st_origin ?st"
    using conjunct2[OF issueTimestamp_own_origin[of _ _ _ "\<lambda>v. 0" 0 "Wire ''1CQKne-me''" None ?c0 ?st ?r ?calls]]
      n a m by blast
  then show ?thesis
    using i n a log by simp
qed

text \<open>
  C10. \<open>issueTimestamp\<close> and \<open>seeTimestamp\<close> leave \<open>origin\<close>, \<open>offset\<close> and \<open>minLength\<close>
  of the clock unchanged, whether they return or fail, and so does every sequence of
  calls.
\<close>

theorem calls_change_only_last:
  "clk_origin (snd (issueTimestamp wall c)) = clk_origin c \<and>
   clk_offset (snd (issueTimestamp wall c)) = clk_offset c \<and>
   clk_minlen (snd (issueTimestamp wall c)) = clk_minlen c \<and>
   clk_origin (snd (seeTimestamp arg c)) = clk_origin c \<and>
   clk_offset (snd (seeTimestamp arg c)) = clk_offset c \<and>
   clk_minlen (snd (seeTimestamp arg c)) = clk_minlen c \<and>
   clk_origin (snd (run c calls)) = clk_origin c \<and>
   clk_offset (snd (run c calls)) = clk_offset c \<and>
   clk_minlen (snd (run c calls)) = clk_minlen c"
  using issue_frame[of wall c] see_frame[of arg c] run_frame[of c calls] by simp

end
